theory Spec2Isabelle
  imports Main "HOL-Library.Sublist"
begin

section \<open>Command history (cmd/rqlite/history/history.go)\<close>

subsection \<open>Go values\<close>

text \<open>
  A Go \<^verbatim>\<open>[]string\<close> is either the nil slice or a sequence of strings; \<^verbatim>\<open>len\<close> of the
  nil slice is 0. A Go string is a sequence of bytes.
\<close>

type_synonym strings = "string list option"

definition len :: "'a list option \<Rightarrow> nat" where
  "len s = (case s of None \<Rightarrow> 0 | Some xs \<Rightarrow> length xs)"

text \<open>The run-time panics the indexing and slicing expressions of the package can raise.\<close>

datatype panic = IndexOutOfRange | SliceBoundsOutOfRange

subsection \<open>Dedupe\<close>

text \<open>
  \<^verbatim>\<open>for si := 0; si < len(s); si++ { if si == 0 || s[si] != o[len(o)-1] { o = append(o, s[si]) } }\<close>

  The read \<^verbatim>\<open>s[si]\<close> is guarded by the loop condition. The read \<^verbatim>\<open>o[len(o)-1]\<close> is only
  guarded by \<^verbatim>\<open>si == 0\<close>, so the model keeps its panic on an empty \<^verbatim>\<open>o\<close> as a branch.
\<close>

function Dedupe_loop :: "string list \<Rightarrow> nat \<Rightarrow> string list \<Rightarrow> panic + string list" where
  "Dedupe_loop s si os =
     (if si < length s then
        (if si = 0 then Dedupe_loop s (si + 1) (os @ [s ! si])
         else if os = [] then Inl IndexOutOfRange
         else if s ! si \<noteq> os ! (length os - 1) then Dedupe_loop s (si + 1) (os @ [s ! si])
         else Dedupe_loop s (si + 1) os)
      else Inr os)"
  by pat_completeness auto
termination
  by (relation "measure (\<lambda>(s, si, os). length s - si)") auto

declare Dedupe_loop.simps [simp del]

definition Dedupe :: "strings \<Rightarrow> panic + strings" where
  "Dedupe s = (case s of
       None \<Rightarrow> Inr None
     | Some xs \<Rightarrow> (case Dedupe_loop xs 0 [] of Inl p \<Rightarrow> Inl p | Inr os \<Rightarrow> Inr (Some os)))"

subsection \<open>Filter\<close>

text \<open>
  \<^verbatim>\<open>strings.Fields\<close> of the Go library splits a string around runs of white space, as
  \<^verbatim>\<open>unicode.IsSpace\<close> defines it, and returns the non-empty pieces. The white-space runes
  are U+0009..U+000D, U+0020, U+0085, U+00A0, U+1680, U+2000..U+200A, U+2028, U+2029,
  U+202F, U+205F and U+3000. On the bytes of a string these are exactly the UTF-8
  encodings below: such an encoding never starts at a continuation byte, so scanning the
  bytes for them from the left meets the same runes as Go's decoder does.
\<close>

definition spaces :: "string list" where
  "spaces =
     [[CHR 0x09], [CHR 0x0A], [CHR 0x0B], [CHR 0x0C], [CHR 0x0D], [CHR 0x20],
      [CHR 0xC2, CHR 0x85], [CHR 0xC2, CHR 0xA0],
      [CHR 0xE1, CHR 0x9A, CHR 0x80],
      [CHR 0xE2, CHR 0x80, CHR 0x80], [CHR 0xE2, CHR 0x80, CHR 0x81],
      [CHR 0xE2, CHR 0x80, CHR 0x82], [CHR 0xE2, CHR 0x80, CHR 0x83],
      [CHR 0xE2, CHR 0x80, CHR 0x84], [CHR 0xE2, CHR 0x80, CHR 0x85],
      [CHR 0xE2, CHR 0x80, CHR 0x86], [CHR 0xE2, CHR 0x80, CHR 0x87],
      [CHR 0xE2, CHR 0x80, CHR 0x88], [CHR 0xE2, CHR 0x80, CHR 0x89],
      [CHR 0xE2, CHR 0x80, CHR 0x8A],
      [CHR 0xE2, CHR 0x80, CHR 0xA8], [CHR 0xE2, CHR 0x80, CHR 0xA9],
      [CHR 0xE2, CHR 0x80, CHR 0xAF], [CHR 0xE2, CHR 0x81, CHR 0x9F],
      [CHR 0xE3, CHR 0x80, CHR 0x80]]"

text \<open>The number of bytes of the white-space rune a string starts with, 0 when it starts with none.\<close>

definition space_width :: "string \<Rightarrow> nat" where
  "space_width s = (case List.find (\<lambda>w. prefix w s) spaces of None \<Rightarrow> 0 | Some w \<Rightarrow> length w)"

text \<open>
  \<open>Fields_scan cur s\<close> scans the rest \<open>s\<close> of the string with the bytes \<open>cur\<close> of the field
  begun so far: a white-space rune ends the field, any other byte extends it.
\<close>

fun Fields_scan :: "string \<Rightarrow> string \<Rightarrow> string list" where
  "Fields_scan cur [] = (if cur = [] then [] else [cur])"
| "Fields_scan cur (c # cs) =
     (case space_width (c # cs) of
        0 \<Rightarrow> Fields_scan (cur @ [c]) cs
      | Suc n \<Rightarrow> (if cur = [] then [] else [cur]) @ Fields_scan [] (drop n cs))"

definition Fields :: "string \<Rightarrow> string list" where
  "Fields s = Fields_scan [] s"

text \<open>
  \<^verbatim>\<open>for si := 0; si < len(s); si++ { if s[si] == "" || len(strings.Fields(s[si])) == 0 { continue }; o = append(o, s[si]) }\<close>
\<close>

function Filter_loop :: "string list \<Rightarrow> nat \<Rightarrow> string list \<Rightarrow> string list" where
  "Filter_loop s si os =
     (if si < length s then
        (if s ! si = [] \<or> length (Fields (s ! si)) = 0 then Filter_loop s (si + 1) os
         else Filter_loop s (si + 1) (os @ [s ! si]))
      else os)"
  by pat_completeness auto
termination
  by (relation "measure (\<lambda>(s, si, os). length s - si)") auto

declare Filter_loop.simps [simp del]

definition Filter :: "strings \<Rightarrow> strings" where
  "Filter s = (case s of None \<Rightarrow> None | Some xs \<Rightarrow> Some (Filter_loop xs 0 []))"

text \<open>
  A string is white space only when it is a sequence of white-space runes; the empty
  string is the case of no rune at all.
\<close>

inductive whitespace_only :: "string \<Rightarrow> bool" where
  ws_empty: "whitespace_only []"
| ws_rune: "w \<in> set spaces \<Longrightarrow> whitespace_only s \<Longrightarrow> whitespace_only (w @ s)"

subsection \<open>Read\<close>

text \<open>
  \<^verbatim>\<open>bufio.Scanner\<close> belongs to the Go library. A reader is modelled by what the scanner
  makes of it: the lines \<^verbatim>\<open>scanner.Text()\<close> returns while \<^verbatim>\<open>scanner.Scan()\<close> is true, and
  the value of \<^verbatim>\<open>scanner.Err()\<close> once it is false. The nil reader is \<open>None\<close>.
\<close>

datatype 'e reader = Reader (scanned: "string list") (scan_err: "'e option")

fun Read_loop :: "string list \<Rightarrow> string list \<Rightarrow> string list" where
  "Read_loop [] cmds = cmds"
| "Read_loop (text # rest) cmds = Read_loop rest (cmds @ [text])"

definition Read :: "'e reader option \<Rightarrow> strings \<times> 'e option" where
  "Read r = (case r of
       None \<Rightarrow> (None, None)
     | Some rd \<Rightarrow> (Filter (Some (Read_loop (scanned rd) [])), scan_err rd))"

subsection \<open>Size\<close>

text \<open>
  \<^verbatim>\<open>strconv.Atoi\<close> of the Go library, for the 64-bit \<^verbatim>\<open>int\<close>: an optional sign, then one or
  more decimal digits and nothing else; a value outside the range of \<^verbatim>\<open>int\<close> is a range
  error.
\<close>

datatype NumError = ErrSyntax | ErrRange

definition isDigit :: "char \<Rightarrow> bool" where
  "isDigit c \<longleftrightarrow> c \<in> set ''0123456789''"

definition digitVal :: "char \<Rightarrow> int" where
  "digitVal c = of_char c - 48"

definition decimal :: "string \<Rightarrow> int" where
  "decimal ds = foldl (\<lambda>n c. 10 * n + digitVal c) 0 ds"

definition Atoi :: "string \<Rightarrow> NumError + int" where
  "Atoi s =
     (let neg = (s \<noteq> [] \<and> hd s = CHR ''-'');
          ds = (if s \<noteq> [] \<and> (hd s = CHR ''-'' \<or> hd s = CHR ''+'') then tl s else s)
      in if ds = [] \<or> \<not> list_all isDigit ds then Inl ErrSyntax
         else let v = (if neg then - decimal ds else decimal ds)
              in if v < - (2 ^ 63) \<or> 2 ^ 63 \<le> v then Inl ErrRange else Inr v)"

text \<open>The environment maps the names of the variables that are set to their values;
  \<^verbatim>\<open>os.Getenv\<close> returns the empty string for a variable that is not set.\<close>

definition Getenv :: "(string \<rightharpoonup> string) \<Rightarrow> string \<Rightarrow> string" where
  "Getenv env key = (case env key of None \<Rightarrow> [] | Some v \<Rightarrow> v)"

definition MaxHistSize :: int where
  "MaxHistSize = 100"

definition Size :: "(string \<rightharpoonup> string) \<Rightarrow> int" where
  "Size env =
     (let maxSize = MaxHistSize;
          maxSizeStr = Getenv env ''RQLITE_HISTFILESIZE''
      in if maxSizeStr \<noteq> [] then
           (case Atoi maxSizeStr of
              Inr sz \<Rightarrow> if 0 < maxSize then sz else maxSize
            | Inl err \<Rightarrow> maxSize)
         else maxSize)"

subsection \<open>Write\<close>

text \<open>
  An \<^verbatim>\<open>io.Writer\<close> is any object that has a function \<^verbatim>\<open>Write\<close>: here a state, and that
  function as one that takes the bytes and the state and returns the error, if any, and
  the new state. The nil writer is \<open>None\<close>.
\<close>

datatype ('w, 'e) writer =
  Writer (write_method: "string \<Rightarrow> 'w \<Rightarrow> 'e option \<times> 'w") (state: 'w)

definition w_Write :: "('w, 'e) writer \<Rightarrow> string \<Rightarrow> 'e option \<times> ('w, 'e) writer" where
  "w_Write w p =
     (case write_method w p (state w) of (err, st) \<Rightarrow> (err, Writer (write_method w) st))"

text \<open>
  A Go \<^verbatim>\<open>int\<close> has 64 bits and its arithmetic wraps around. \<^verbatim>\<open>k[low:]\<close> panics unless
  \<^verbatim>\<open>0 <= low <= len(k)\<close>, and \<^verbatim>\<open>k[i]\<close> panics unless \<^verbatim>\<open>0 <= i < len(k)\<close>.
\<close>

definition wrap64 :: "int \<Rightarrow> int" where
  "wrap64 x = (x + 2 ^ 63) mod 2 ^ 64 - 2 ^ 63"

definition slice_from :: "'a list \<Rightarrow> int \<Rightarrow> panic + 'a list" where
  "slice_from k low =
     (if low < 0 \<or> int (length k) < low then Inl SliceBoundsOutOfRange
      else Inr (drop (nat low) k))"

definition index :: "'a list \<Rightarrow> int \<Rightarrow> panic + 'a" where
  "index k i =
     (if i < 0 \<or> int (length k) \<le> i then Inl IndexOutOfRange else Inr (k ! nat i))"

text \<open>
  \<^verbatim>\<open>for i := 0; i < len(k)-1; i++ { if _, err := w.Write([]byte(k[i] + "\n")); err != nil { return err } }\<close>

  The result is the error that makes \<^verbatim>\<open>Write\<close> return from inside the loop, or none when
  the loop runs to its end, and the writer as the loop leaves it.
\<close>

function Write_loop :: "string list \<Rightarrow> nat \<Rightarrow> ('w, 'e) writer \<Rightarrow> 'e option \<times> ('w, 'e) writer" where
  "Write_loop k i w =
     (if int i < int (length k) - 1 then
        (case w_Write w (k ! i @ [CHR 0x0A]) of
           (Some err, w') \<Rightarrow> (Some err, w')
         | (None, w') \<Rightarrow> Write_loop k (i + 1) w')
      else (None, w))"
  by pat_completeness auto
termination
  by (relation "measure (\<lambda>(k, i, w). length k - i)") auto

declare Write_loop.simps [simp del]

text \<open>
  \<^verbatim>\<open>Write\<close> returns the error of the source and the writer as the call leaves it, or the
  panic that ends it. Both panics can only come before the first byte is written: the
  slice expression precedes the loop, and \<^verbatim>\<open>k[len(k)-1]\<close> is out of range only for an empty
  \<^verbatim>\<open>k\<close>, for which the loop does not run.
\<close>

definition Write :: "strings \<Rightarrow> int \<Rightarrow> ('w, 'e) writer option \<Rightarrow> panic + 'e option \<times> ('w, 'e) writer option" where
  "Write j maxSz w =
     (if len j = 0 then Inr (None, w)
      else case w of
        None \<Rightarrow> Inr (None, None)
      | Some wr \<Rightarrow>
         (case Dedupe j of
            Inl p \<Rightarrow> Inl p
          | Inr d \<Rightarrow>
             (case Filter d of
                None \<Rightarrow> Inr (None, w)
              | Some k \<Rightarrow>
                 if length k = 0 then Inr (None, w)
                 else
                   (case (if maxSz < int (length k)
                          then slice_from k (wrap64 (int (length k) - maxSz))
                          else Inr k) of
                      Inl p \<Rightarrow> Inl p
                    | Inr k' \<Rightarrow>
                       (case Write_loop k' 0 wr of
                          (Some err, w1) \<Rightarrow> Inr (Some err, Some w1)
                        | (None, w1) \<Rightarrow>
                           (case index k' (int (length k') - 1) of
                              Inl p \<Rightarrow> Inl p
                            | Inr final \<Rightarrow>
                               (case w_Write w1 final of
                                  (err, w2) \<Rightarrow> Inr (err, Some w2))))))))"

subsection \<open>What Write is specified to persist\<close>

text \<open>
  The words of the specification about \<^verbatim>\<open>Write\<close>, as definitions of their own, for the
  comparison with the function above: the list \<^verbatim>\<open>k = Filter(Dedupe(j))\<close>, its last \<open>n\<close>
  entries, the entries joined by newlines with no trailing newline, the pieces the entries
  are handed to the writer in, and a writer that receives pieces one after the other until
  one of them fails.
\<close>

definition Filter_Dedupe :: "string list \<Rightarrow> string list" where
  "Filter_Dedupe j =
     (case Dedupe (Some j) of
        Inl p \<Rightarrow> []
      | Inr d \<Rightarrow> (case Filter d of None \<Rightarrow> [] | Some k \<Rightarrow> k))"

definition last_entries :: "nat \<Rightarrow> 'a list \<Rightarrow> 'a list" where
  "last_entries n xs = drop (length xs - n) xs"

fun join_lines :: "string list \<Rightarrow> string" where
  "join_lines [] = []"
| "join_lines [x] = x"
| "join_lines (x # y # ys) = x @ [CHR 0x0A] @ join_lines (y # ys)"

definition pieces :: "string list \<Rightarrow> string list" where
  "pieces k = (if k = [] then [] else map (\<lambda>x. x @ [CHR 0x0A]) (butlast k) @ [last k])"

fun send_all :: "string list \<Rightarrow> ('w, 'e) writer \<Rightarrow> 'e option \<times> ('w, 'e) writer" where
  "send_all [] w = (None, w)"
| "send_all (p # ps) w =
     (case w_Write w p of
        (Some err, w1) \<Rightarrow> (Some err, w1)
      | (None, w1) \<Rightarrow> send_all ps w1)"

text \<open>
  Two writers to try \<^verbatim>\<open>Write\<close> on, both holding the bytes written so far: a memory buffer
  that takes every write, and a device with room for \<open>room\<close> bytes, on which a write that
  does not fit stores nothing and returns an error.
\<close>

datatype io_error = ENOSPC

definition memory :: "string \<Rightarrow> (string, io_error) writer" where
  "memory content = Writer (\<lambda>p st. (None, st @ p)) content"

definition disk :: "nat \<Rightarrow> string \<Rightarrow> (string, io_error) writer" where
  "disk room content =
     Writer (\<lambda>p st. if length st + length p \<le> room then (None, st @ p) else (Some ENOSPC, st))
       content"

section \<open>Batching queue (queue/queue.go)\<close>

text \<open>
  Modelled from the spec: \<^verbatim>\<open>queue.go\<close>, with the queue type and its functions \<^verbatim>\<open>New\<close>,
  \<^verbatim>\<open>Write\<close>, \<^verbatim>\<open>Close\<close> and the dispatcher loop, is not among the sources; only its test
  file is. The definitions of this section follow sections 3 and 4 of the specification,
  and agree with what \<^verbatim>\<open>queue_test.go\<close> expects.

  An item is a pointer: \<open>None\<close> is the nil item. Time is counted in units of the timer's
  resolution; a queue is the state of all its parts: the configuration, the Input Buffer,
  the open batch and the timer of the Dispatcher (the remaining time while it is armed),
  the batches delivered to the Output Stream so far, each with what triggered it, and the
  counter of time-outs.
\<close>

datatype trigger = SizeTriggered | TimeoutTriggered | CloseFlush

datatype queue_error = InvalidConfig | Closed

record 'a queue =
  capacity :: int
  batchSize :: int
  batchTimeout :: int
  buffer :: "'a option list"
  batch :: "'a option list"
  timer :: "int option"
  emitted :: "(trigger \<times> 'a option list) list"
  numTimeouts :: nat
  closed :: bool

text \<open>
  Modelled from the spec: construction (\<^verbatim>\<open>New\<close> in the tests). "All three parameters must
  be positive; otherwise fails immediately with no resources allocated. On success, starts
  the Dispatcher and returns a live handle."
\<close>

definition New :: "int \<Rightarrow> int \<Rightarrow> int \<Rightarrow> queue_error + 'a queue" where
  "New cap bs bt =
     (if cap \<le> 0 \<or> bs \<le> 0 \<or> bt \<le> 0 then Inl InvalidConfig
      else Inr \<lparr>capacity = cap, batchSize = bs, batchTimeout = bt, buffer = [], batch = [],
                timer = None, emitted = [], numTimeouts = 0, closed = False\<rparr>)"

text \<open>
  Modelled from the spec: \<^verbatim>\<open>Write\<close> of the queue. "If item is nil/absent, returns success
  immediately without touching the Input Buffer. Otherwise blocks the caller until the
  item is accepted into the Input Buffer or the queue has been closed, in which case it
  fails with Closed." A call that finds the buffer full has not returned yet: it is
  \<open>Blocked\<close>, the queue is as before, and the caller is still waiting.
\<close>

datatype write_result = Ok | Failed queue_error | Blocked

definition Queue_Write :: "'a option \<Rightarrow> 'a queue \<Rightarrow> write_result \<times> 'a queue" where
  "Queue_Write item q =
     (case item of
        None \<Rightarrow> (Ok, q)
      | Some x \<Rightarrow>
         if closed q then (Failed Closed, q)
         else if int (length (buffer q)) < capacity q then (Ok, q\<lparr>buffer := buffer q @ [item]\<rparr>)
         else (Blocked, q))"

text \<open>
  Modelled from the spec: the transitions of the Dispatcher (section 4.2). Sealing a batch
  delivers it to the Output Stream and clears the open batch; the consumer is taken to
  accept every batch.

  An item that arrives is appended to the open batch; the first item of a batch arms the
  timer; a batch that reaches \<open>batchSize\<close> is sealed (size-triggered, no counter change)
  and the timer is disarmed. The check of the size is made for the first item of a batch
  as for any other: for \<open>batchSize = 1\<close> this is what keeps an open batch shorter than
  \<open>batchSize\<close> (section 3), and what \<^verbatim>\<open>Test_NewQueueWriteBatchSizeSingle\<close> expects, which
  receives the batch of a single write long before the time-out.
\<close>

definition seal :: "trigger \<Rightarrow> 'a queue \<Rightarrow> 'a queue" where
  "seal t q = q\<lparr>emitted := emitted q @ [(t, batch q)], batch := []\<rparr>"

definition arrive :: "'a option \<Rightarrow> 'a queue \<Rightarrow> 'a queue" where
  "arrive item q =
     (let q1 = q\<lparr>batch := batch q @ [item],
                 timer := (if batch q = [] then Some (batchTimeout q) else timer q)\<rparr>
      in if int (length (batch q1)) = batchSize q1 then (seal SizeTriggered q1)\<lparr>timer := None\<rparr>
         else q1)"

text \<open>
  Modelled from the spec: the Dispatcher "pulls from the Input Buffer"; it takes the next
  item, if there is one. After \<^verbatim>\<open>Close\<close> it has stopped.
\<close>

definition dispatch :: "'a queue \<Rightarrow> 'a queue" where
  "dispatch q =
     (if closed q then q
      else case buffer q of [] \<Rightarrow> q | item # rest \<Rightarrow> arrive item (q\<lparr>buffer := rest\<rparr>))"

text \<open>
  Modelled from the spec: the timer fires. "Accumulating, timer fires: seal and deliver
  the current batch (timeout-triggered emission, increment numTimeouts), clear batch,
  rearm timer"; "Idle, timer fires: rearm timer, no emission, no counter change".
\<close>

definition fire :: "'a queue \<Rightarrow> 'a queue" where
  "fire q =
     (if batch q = [] then q\<lparr>timer := Some (batchTimeout q)\<rparr>
      else (seal TimeoutTriggered q)\<lparr>numTimeouts := numTimeouts q + 1,
                                       timer := Some (batchTimeout q)\<rparr>)"

text \<open>
  Modelled from the spec: the timer counts "down from the moment it was (re)armed". One
  unit of time passes: an armed timer counts down, and fires when its time is up.
\<close>

definition due :: "'a queue \<Rightarrow> bool" where
  "due q = (case timer q of None \<Rightarrow> False | Some r \<Rightarrow> r \<le> 1)"

definition tick :: "'a queue \<Rightarrow> 'a queue" where
  "tick q =
     (case timer q of
        None \<Rightarrow> q
      | Some r \<Rightarrow> if due q then fire q else q\<lparr>timer := Some (r - 1)\<rparr>)"

text \<open>
  Modelled from the spec: \<^verbatim>\<open>Close\<close>. "Stops accepting new Writes; stops the Dispatcher; any
  batch open at the moment of Close is sealed and emitted before the Output Stream is
  closed."
\<close>

definition Close :: "'a queue \<Rightarrow> 'a queue" where
  "Close q =
     (if closed q then q
      else (if batch q = [] then q else seal CloseFlush q)\<lparr>timer := None, closed := True\<rparr>)"

text \<open>
  Modelled from the spec: the control flow "producer, Write, Input Buffer, Dispatcher,
  Output Stream". An execution of a queue is a sequence of events, in the order in which
  they take effect: a producer calls \<^verbatim>\<open>Write\<close>, the Dispatcher takes an item, a unit of
  time passes, or \<^verbatim>\<open>Close\<close> is called.
\<close>

datatype 'a event = Call_Write "'a option" | Dispatch | Tick | Call_Close

fun step :: "'a event \<Rightarrow> 'a queue \<Rightarrow> 'a queue" where
  "step (Call_Write item) q = snd (Queue_Write item q)"
| "step Dispatch q = dispatch q"
| "step Tick q = tick q"
| "step Call_Close q = Close q"

fun run :: "'a event list \<Rightarrow> 'a queue \<Rightarrow> 'a queue" where
  "run [] q = q"
| "run (e # es) q = run es (step e q)"

text \<open>
  Modelled from the spec: the writes of an execution, that is the items of the calls of
  \<^verbatim>\<open>Write\<close> that put an item into the Input Buffer, in order.
\<close>

fun accepted :: "'a event list \<Rightarrow> 'a queue \<Rightarrow> 'a option list" where
  "accepted [] q = []"
| "accepted (Call_Write item # es) q =
     (if item \<noteq> None \<and> fst (Queue_Write item q) = Ok then [item] else [])
       @ accepted es (step (Call_Write item) q)"
| "accepted (e # es) q = accepted es (step e q)"

text \<open>
  Modelled from the spec: an execution with no time-out, in which the timer never runs out
  on a batch that holds items.
\<close>

fun no_timeout :: "'a event list \<Rightarrow> 'a queue \<Rightarrow> bool" where
  "no_timeout [] q = True"
| "no_timeout (e # es) q =
     (\<not> (e = Tick \<and> due q \<and> batch q \<noteq> []) \<and> no_timeout es (step e q))"

text \<open>
  Modelled from the spec: the Dispatcher takes every item that waits in the Input Buffer.
\<close>

definition drain :: "'a queue \<Rightarrow> 'a queue" where
  "drain q = run (replicate (length (buffer q)) Dispatch) q"

section \<open>Properties of the command history\<close>

subsection \<open>The loops of Dedupe and Filter\<close>

lemma Dedupe_loop_done: "length s \<le> si \<Longrightarrow> Dedupe_loop s si os = Inr os"
  by (subst Dedupe_loop.simps) simp

lemma Dedupe_loop_first: "s \<noteq> [] \<Longrightarrow> Dedupe_loop s 0 os = Dedupe_loop s 1 (os @ [s ! 0])"
  by (subst Dedupe_loop.simps) simp

lemma Dedupe_loop_step:
  "si < length s \<Longrightarrow> 0 < si \<Longrightarrow> os \<noteq> [] \<Longrightarrow>
   Dedupe_loop s si os =
     Dedupe_loop s (Suc si) (if s ! si \<noteq> last os then os @ [s ! si] else os)"
  by (subst Dedupe_loop.simps) (simp add: last_conv_nth)

lemma remdups_adj_snoc:
  "xs \<noteq> [] \<Longrightarrow> remdups_adj (xs @ [y]) = remdups_adj xs @ (if last xs = y then [] else [y])"
proof -
  assume "xs \<noteq> []"
  then obtain ys z where "xs = ys @ [z]" by (cases xs rule: rev_cases) auto
  then show ?thesis by (simp add: remdups_adj_append_two)
qed

lemma Dedupe_loop_inv:
  "0 < si \<Longrightarrow> si \<le> length s \<Longrightarrow> Dedupe_loop s si (remdups_adj (take si s)) = Inr (remdups_adj s)"
proof (induction "length s - si" arbitrary: si)
  case 0
  then show ?case by (simp add: Dedupe_loop_done)
next
  case (Suc n)
  then have lt: "si < length s" by simp
  have ne: "take si s \<noteq> []" using Suc.prems lt by auto
  have "remdups_adj (take (Suc si) s) =
        remdups_adj (take si s) @ (if last (take si s) = s ! si then [] else [s ! si])"
    using lt ne by (simp add: take_Suc_conv_app_nth remdups_adj_snoc)
  moreover have "Dedupe_loop s (Suc si) (remdups_adj (take (Suc si) s)) = Inr (remdups_adj s)"
    using Suc.hyps(2) lt by (intro Suc.hyps(1)) auto
  ultimately have "Dedupe_loop s (Suc si)
      (if s ! si \<noteq> last (take si s) then remdups_adj (take si s) @ [s ! si]
       else remdups_adj (take si s)) = Inr (remdups_adj s)"
    by (cases "last (take si s) = s ! si") auto
  then show ?case
    using lt Suc.prems(1) ne by (simp add: Dedupe_loop_step)
qed

lemma Dedupe_loop_start: "Dedupe_loop s 0 [] = Inr (remdups_adj s)"
proof (cases s)
  case Nil
  then show ?thesis by (simp add: Dedupe_loop_done)
next
  case (Cons x xs)
  then show ?thesis
    using Dedupe_loop_inv [of 1 s] by (simp add: Dedupe_loop_first)
qed

lemma Dedupe_Some: "Dedupe (Some s) = Inr (Some (remdups_adj s))"
  by (simp add: Dedupe_def Dedupe_loop_start)

lemma Filter_loop_eq:
  "Filter_loop s si os = os @ filter (\<lambda>x. x \<noteq> [] \<and> Fields x \<noteq> []) (drop si s)"
proof (induction s si os rule: Filter_loop.induct)
  case (1 s si os)
  show ?case
  proof (cases "si < length s")
    case False
    then show ?thesis by (simp add: Filter_loop.simps[of s si os])
  next
    case True
    then have d: "drop si s = s ! si # drop (Suc si) s" by (simp add: Cons_nth_drop_Suc)
    show ?thesis using True 1 by (simp add: Filter_loop.simps[of s si os] d)
  qed
qed

lemma Filter_Some: "Filter (Some s) = Some (filter (\<lambda>x. x \<noteq> [] \<and> Fields x \<noteq> []) s)"
  by (simp add: Filter_def Filter_loop_eq)

lemma subseq_remdups_adj: "subseq (remdups_adj xs) xs"
  by (induction xs rule: remdups_adj.induct) auto

subsection \<open>Fields and white space\<close>

lemma space_width_spaces: "w \<in> set spaces \<Longrightarrow> space_width (w @ s) = length w"
  unfolding spaces_def space_width_def set_simps insert_iff empty_iff
  by (elim disjE FalseE) simp_all

lemma spaces_nonempty: "w \<in> set spaces \<Longrightarrow> w \<noteq> []"
  unfolding spaces_def set_simps insert_iff empty_iff
  by (elim disjE FalseE) simp_all

lemma space_width_SucD:
  assumes "space_width s = Suc n"
  shows "\<exists>w \<in> set spaces. s = w @ drop (Suc n) s"
proof -
  from assms obtain w where f: "List.find (\<lambda>w. prefix w s) spaces = Some w" and l: "length w = Suc n"
    by (auto simp: space_width_def split: option.splits)
  from f have "w \<in> set spaces" "prefix w s"
    by (auto simp: find_Some_iff)
  then show ?thesis using l by (auto simp: prefix_def)
qed

lemma Fields_scan_Nil_D: "Fields_scan cur s = [] \<Longrightarrow> cur = [] \<and> whitespace_only s"
proof (induction cur s rule: Fields_scan.induct)
  case (1 cur)
  then show ?case by (simp add: whitespace_only.ws_empty split: if_splits)
next
  case (2 cur c cs)
  show ?case
  proof (cases "space_width (c # cs)")
    case 0
    then have "Fields_scan cur (c # cs) = Fields_scan (cur @ [c]) cs" by simp
    with "2.prems" have "Fields_scan (cur @ [c]) cs = []" by simp
    from "2.IH"(1) [OF 0 this] show ?thesis by simp
  next
    case (Suc n)
    then have "Fields_scan cur (c # cs) = (if cur = [] then [] else [cur]) @ Fields_scan [] (drop n cs)"
      by simp
    with "2.prems" have cur: "cur = []" and "Fields_scan [] (drop n cs) = []"
      by (simp_all split: if_splits)
    from "2.IH"(2) [OF Suc this(2)] have ws: "whitespace_only (drop n cs)" by simp
    from space_width_SucD [OF Suc] obtain w where w: "w \<in> set spaces" "c # cs = w @ drop n cs"
      by auto
    from whitespace_only.ws_rune [OF w(1) ws] w(2) have "whitespace_only (c # cs)" by simp
    with cur show ?thesis by simp
  qed
qed

lemma Fields_scan_space:
  assumes "w \<in> set spaces" shows "Fields_scan [] (w @ s) = Fields_scan [] s"
proof -
  from spaces_nonempty [OF assms] obtain c w' where w: "w = c # w'"
    by (cases w) simp_all
  have "space_width (c # w' @ s) = Suc (length w')"
    using space_width_spaces [OF assms, of s] by (simp add: w)
  then have "Fields_scan [] (c # w' @ s) = Fields_scan [] s" by simp
  then show ?thesis by (simp add: w)
qed

lemma whitespace_only_Fields_scan: "whitespace_only s \<Longrightarrow> Fields_scan [] s = []"
proof (induction rule: whitespace_only.induct)
  case ws_empty
  show ?case by simp
next
  case (ws_rune w s)
  have "Fields_scan [] (w @ s) = Fields_scan [] s"
    by (rule Fields_scan_space [OF ws_rune.hyps(1)])
  also have "\<dots> = []" by (rule ws_rune.IH)
  finally show ?case .
qed

lemma Fields_Nil_iff: "Fields s = [] \<longleftrightarrow> whitespace_only s"
proof
  assume "Fields s = []"
  then have "Fields_scan [] s = []" by (simp only: Fields_def)
  from Fields_scan_Nil_D [OF this] show "whitespace_only s" by (rule conjunct2)
next
  assume "whitespace_only s"
  from whitespace_only_Fields_scan [OF this] show "Fields s = []" by (simp only: Fields_def)
qed

subsection \<open>The steps of Write\<close>

lemma Filter_Dedupe_eq:
  "Filter_Dedupe j = filter (\<lambda>x. x \<noteq> [] \<and> Fields x \<noteq> []) (remdups_adj j)"
  by (simp add: Filter_Dedupe_def Dedupe_Some Filter_Some)

lemma length_Filter_Dedupe: "length (Filter_Dedupe j) \<le> length j"
proof -
  have "length (Filter_Dedupe j) \<le> length (remdups_adj j)"
    by (simp add: Filter_Dedupe_eq)
  also have "\<dots> \<le> length j" by (rule remdups_adj_length)
  finally show ?thesis .
qed

lemma wrap64_id: "- (2 ^ 63) \<le> x \<Longrightarrow> x < 2 ^ 63 \<Longrightarrow> wrap64 x = x"
  by (simp add: wrap64_def)

lemma wrap64_over: "2 ^ 63 \<le> x \<Longrightarrow> x < 2 ^ 64 \<Longrightarrow> wrap64 x = x - 2 ^ 64"
proof -
  assume a: "2 ^ 63 \<le> x" "x < 2 ^ 64"
  have "(x + 2 ^ 63) mod 2 ^ 64 = (x + 2 ^ 63 - 2 ^ 64) mod 2 ^ 64"
    by (metis mod_diff_right_eq mod_self diff_zero)
  also have "\<dots> = x + 2 ^ 63 - 2 ^ 64"
    using a by (intro mod_pos_pos_trivial) simp_all
  finally show ?thesis by (simp add: wrap64_def)
qed

lemma Write_loop_send_all:
  "Write_loop k i w = send_all (map (\<lambda>x. x @ [CHR 0x0A]) (drop i (butlast k))) w"
proof (induction k i w rule: Write_loop.induct)
  case (1 k i w)
  show ?case
  proof (cases "int i < int (length k) - 1")
    case False
    then show ?thesis by (subst Write_loop.simps) simp
  next
    case True
    then have lt: "i < length (butlast k)" by simp
    then have d: "drop i (butlast k) = k ! i # drop (Suc i) (butlast k)"
      by (simp add: Cons_nth_drop_Suc [symmetric] nth_butlast)
    show ?thesis
    proof (cases "w_Write w (k ! i @ [CHR 0x0A])")
      case (Pair err w1)
      show ?thesis
      proof (cases err)
        case None
        have "Write_loop k (i + 1) w1 =
              send_all (map (\<lambda>x. x @ [CHR 0x0A]) (drop (i + 1) (butlast k))) w1"
          using True Pair None by (intro "1.IH") simp_all
        with Pair True None show ?thesis
          by (subst Write_loop.simps) (simp add: d)
      next
        case (Some e)
        with Pair True show ?thesis
          by (subst Write_loop.simps) (simp add: d)
      qed
    qed
  qed
qed

lemma send_all_snoc:
  "send_all (ps @ [p]) w =
     (case send_all ps w of (Some err, w1) \<Rightarrow> (Some err, w1) | (None, w1) \<Rightarrow> w_Write w1 p)"
  by (induction ps arbitrary: w) (auto split: prod.splits option.splits)

lemma Write_tail:
  assumes "k \<noteq> []"
  shows "(case Write_loop k 0 wr of
            (Some err, w1) \<Rightarrow> Inr (Some err, Some w1)
          | (None, w1) \<Rightarrow>
             (case index k (int (length k) - 1) of
                Inl p \<Rightarrow> Inl p
              | Inr final \<Rightarrow> (case w_Write w1 final of (err, w2) \<Rightarrow> Inr (err, Some w2))))
         = (Inr (map_prod id Some (send_all (pieces k) wr)) :: panic + 'e option \<times> ('w, 'e) writer option)"
proof -
  have i: "index k (int (length k) - 1) = Inr (last k)"
    using assms by (simp add: index_def last_conv_nth nat_diff_distrib')
  show ?thesis
    using assms
    by (simp add: i Write_loop_send_all pieces_def send_all_snoc split: prod.splits option.splits)
qed

lemma Write_Some:
  "Write (Some j) maxSz (Some wr) =
     (if Filter_Dedupe j = [] then Inr (None, Some wr)
      else case (if maxSz < int (length (Filter_Dedupe j))
                 then slice_from (Filter_Dedupe j) (wrap64 (int (length (Filter_Dedupe j)) - maxSz))
                 else Inr (Filter_Dedupe j)) of
             Inl p \<Rightarrow> Inl p
           | Inr k' \<Rightarrow>
              (case Write_loop k' 0 wr of
                 (Some err, w1) \<Rightarrow> Inr (Some err, Some w1)
               | (None, w1) \<Rightarrow>
                  (case index k' (int (length k') - 1) of
                     Inl p \<Rightarrow> Inl p
                   | Inr final \<Rightarrow> (case w_Write w1 final of (err, w2) \<Rightarrow> Inr (err, Some w2)))))"
proof (cases "j = []")
  case True
  then show ?thesis by (simp add: Write_def len_def Filter_Dedupe_eq)
next
  case False
  then show ?thesis
    by (simp add: Write_def len_def Dedupe_Some Filter_Some Filter_Dedupe_eq)
qed

lemma Write_positive:
  assumes "0 < maxSz" "maxSz < 2 ^ 63" "length j < 2 ^ 63" "Filter_Dedupe j \<noteq> []"
  shows "Write (Some j) maxSz (Some wr) =
           Inr (map_prod id Some
                  (send_all (pieces (last_entries (min (nat maxSz) (length (Filter_Dedupe j)))
                                       (Filter_Dedupe j))) wr))"
proof -
  let ?k = "Filter_Dedupe j"
  have len: "int (length ?k) < 2 ^ 63"
    using length_Filter_Dedupe [of j] assms(3) by simp
  show ?thesis
  proof (cases "maxSz < int (length ?k)")
    case False
    then have "last_entries (min (nat maxSz) (length ?k)) ?k = ?k"
      by (simp add: last_entries_def)
    with False assms(4) show ?thesis
      by (simp add: Write_Some Write_tail)
  next
    case True
    have w: "wrap64 (int (length ?k) - maxSz) = int (length ?k) - maxSz"
      using True assms(1) len by (intro wrap64_id) simp_all
    have s: "slice_from ?k (int (length ?k) - maxSz) = Inr (drop (length ?k - nat maxSz) ?k)"
      using True assms(1) by (simp add: slice_from_def nat_diff_distrib')
    have m: "min (nat maxSz) (length ?k) = nat maxSz" using True by simp
    have ne: "drop (length ?k - nat maxSz) ?k \<noteq> []" using True assms(1) by simp
    show ?thesis
      using True assms(4) Write_tail [OF ne, of wr]
      by (simp add: Write_Some w s m last_entries_def)
  qed
qed

lemma concat_pieces: "concat (pieces k) = join_lines k"
proof (induction k rule: join_lines.induct)
  case 1
  show ?case by (simp add: pieces_def)
next
  case (2 x)
  show ?case by (simp add: pieces_def)
next
  case (3 x y ys)
  then show ?case by (simp add: pieces_def)
qed

lemma send_all_accepting:
  assumes "\<And>p st. fst (write_method w p st) = None \<and> content (snd (write_method w p st)) = content st @ p"
  shows "\<exists>w'. send_all ps w = (None, w') \<and> write_method w' = write_method w
            \<and> content (state w') = content (state w) @ concat ps"
proof (induction ps rule: rev_induct)
  case Nil
  show ?case by simp
next
  case (snoc p ps)
  from snoc obtain w' where w': "send_all ps w = (None, w')" "write_method w' = write_method w"
    "content (state w') = content (state w) @ concat ps" by blast
  obtain e st where m: "write_method w p (state w') = (e, st)" by (cases "write_method w p (state w')")
  from assms [of p "state w'"] have "e = None \<and> content st = content (state w') @ p"
    unfolding m fst_conv snd_conv .
  with w' m show ?case
    by (simp add: send_all_snoc w_Write_def)
qed


lemma Write_loop_Nil: "Write_loop [] 0 wr = (None, wr)"
  by (subst Write_loop.simps) simp

lemma Write_zero:
  assumes "Filter_Dedupe j \<noteq> []" "length j < 2 ^ 63"
  shows "Write (Some j) 0 (Some wr) = Inl IndexOutOfRange"
proof -
  let ?k = "Filter_Dedupe j"
  have len: "int (length ?k) < 2 ^ 63"
    using length_Filter_Dedupe [of j] assms(2) by simp
  have w: "wrap64 (int (length ?k)) = int (length ?k)"
    using len by (intro wrap64_id) simp_all
  show ?thesis
    using assms(1) by (simp add: Write_Some w slice_from_def Write_loop_Nil index_def)
qed

lemma low_out_of_range:
  assumes "length j < 2 ^ 63" "- (2 ^ 63) \<le> maxSz" "maxSz < 0"
  shows "wrap64 (int (length (Filter_Dedupe j)) - maxSz) < 0
       \<or> int (length (Filter_Dedupe j)) < wrap64 (int (length (Filter_Dedupe j)) - maxSz)"
proof -
  let ?k = "Filter_Dedupe j"
  let ?low = "int (length ?k) - maxSz"
  have len: "int (length ?k) < 2 ^ 63"
    using length_Filter_Dedupe [of j] assms(1) by simp
  show ?thesis
  proof (cases "?low < 2 ^ 63")
    case True
    then have "wrap64 ?low = ?low" using assms(3) by (intro wrap64_id) simp_all
    then show ?thesis using assms(3) by simp
  next
    case False
    then have "wrap64 ?low = ?low - 2 ^ 64"
      using assms(2) len by (intro wrap64_over) simp_all
    then show ?thesis using assms(2) len by simp
  qed
qed

lemma Write_negative:
  assumes "Filter_Dedupe j \<noteq> []" "length j < 2 ^ 63" "- (2 ^ 63) \<le> maxSz" "maxSz < 0"
  shows "Write (Some j) maxSz (Some wr) = Inl SliceBoundsOutOfRange"
proof -
  have lt: "maxSz < int (length (Filter_Dedupe j))" using assms(4) by simp
  show ?thesis
    using assms(1) lt low_out_of_range [OF assms(2-4)]
    by (auto simp add: Write_Some slice_from_def)
qed

lemma Write_nil_writer: "Write j maxSz None = Inr (None, None)"
  by (simp add: Write_def)

lemma Write_empty: "len j = 0 \<Longrightarrow> Write j maxSz w = Inr (None, w)"
  by (simp add: Write_def)

lemmas Fields_eval = Fields_def space_width_def spaces_def

subsection \<open>Dedupe, Filter and Size\<close>

text \<open>
  Claim C7 says that no command occurs more than once in \<^verbatim>\<open>Dedupe(s)\<close>. \<^verbatim>\<open>Dedupe\<close> compares
  an entry with the last entry it has kept only, so a command that comes back after a
  different one is kept again: \<^verbatim>\<open>Dedupe(["a", "b", "a"])\<close> is \<^verbatim>\<open>["a", "b", "a"]\<close>, in which
  \<^verbatim>\<open>"a"\<close> occurs twice.
\<close>

theorem Dedupe_keeps_distant_repeats:
  "Dedupe (Some [''a'', ''b'', ''a'']) = Inr (Some [''a'', ''b'', ''a''])
   \<and> \<not> distinct [''a'', ''b'', ''a'']"
  by (simp add: Dedupe_Some)

text \<open>
  Claim C7, as amended: \<^verbatim>\<open>Dedupe\<close> removes the repeats that follow one another. For every
  list \<open>s\<close> it returns, without a panic, \<open>s\<close> with every run of equal adjacent entries
  reduced to one entry: no two adjacent entries of the result are equal, and the result
  is a subsequence of \<open>s\<close> in the order of \<open>s\<close>. \<^verbatim>\<open>Dedupe(nil)\<close> is \<^verbatim>\<open>nil\<close>.
\<close>

theorem Dedupe_adjacent:
  "Dedupe None = Inr None
   \<and> Dedupe (Some s) = Inr (Some (remdups_adj s))
   \<and> distinct_adj (remdups_adj s)
   \<and> subseq (remdups_adj s) s"
  by (simp add: Dedupe_Some subseq_remdups_adj) (simp add: Dedupe_def)

text \<open>
  Claim C8: \<^verbatim>\<open>Filter\<close> filters blank lines. For every list \<open>s\<close>, \<^verbatim>\<open>Filter(s)\<close> is the list of
  the entries of \<open>s\<close>, in their order, that are not empty and have at least one field in
  the sense of \<^verbatim>\<open>strings.Fields\<close>; \<^verbatim>\<open>Filter(nil)\<close> is \<^verbatim>\<open>nil\<close>. Hence no line that \<^verbatim>\<open>Read\<close>
  returns is empty or white space only.
\<close>

theorem Filter_drops_blank_lines:
  "Filter None = None
   \<and> Filter (Some s) = Some (filter (\<lambda>x. x \<noteq> [] \<and> Fields x \<noteq> []) s)
   \<and> (fst (Read r) = Some ls \<longrightarrow> (\<forall>l \<in> set ls. l \<noteq> [] \<and> \<not> whitespace_only l))"
proof -
  have rl: "Read_loop ts cmds = cmds @ ts" for ts cmds :: "string list"
    by (induction ts arbitrary: cmds) simp_all
  have "fst (Read r) = Some ls \<Longrightarrow> l \<in> set ls \<Longrightarrow> l \<noteq> [] \<and> \<not> whitespace_only l" for l
    by (cases r) (auto simp: Read_def Filter_Some rl Fields_Nil_iff)
  then show ?thesis
    by (simp add: Filter_Some) (simp add: Filter_def)
qed

theorem Filter_drops_blank_lines_witness:
  "fst (Read (Some (Reader [''ab'', '' '', [], ''c d''] (None :: unit option)))) = Some [''ab'', ''c d'']
   \<and> Filter (Some [''ab'', '' '', [], ''c d'']) = Some [''ab'', ''c d'']
   \<and> \<not> whitespace_only ''ab'' \<and> \<not> whitespace_only ''c d''"
  using Filter_drops_blank_lines [of "[''ab'', '' '', [], ''c d'']"
      "Some (Reader [''ab'', '' '', [], ''c d''] (None :: unit option))" "[''ab'', ''c d'']"]
  by (simp add: Read_def Fields_eval)

lemma Atoi_Nil: "Atoi [] = Inl ErrSyntax"
  by (simp add: Atoi_def)

text \<open>
  Claim C9: when \<^verbatim>\<open>RQLITE_HISTFILESIZE\<close> is set to a value that \<^verbatim>\<open>strconv.Atoi\<close> parses,
  \<^verbatim>\<open>Size\<close> returns the parsed integer, whatever its sign: the test \<^verbatim>\<open>maxSize > 0\<close> is made
  on the default, which is 100, not on the parsed value. When the variable is not set, or
  its value does not parse, \<^verbatim>\<open>Size\<close> returns \<^verbatim>\<open>MaxHistSize\<close>, which is 100.
\<close>

theorem Size_returns_parsed_value:
  "(env ''RQLITE_HISTFILESIZE'' = Some v \<and> Atoi v = Inr n \<longrightarrow> Size env = n)
   \<and> (env ''RQLITE_HISTFILESIZE'' = None
        \<or> (env ''RQLITE_HISTFILESIZE'' = Some v \<and> Atoi v = Inl e) \<longrightarrow> Size env = MaxHistSize)
   \<and> MaxHistSize = 100"
  by (cases "v = []") (auto simp: Size_def Getenv_def MaxHistSize_def Atoi_Nil)

lemmas Atoi_eval = Atoi_def isDigit_def decimal_def digitVal_def

theorem Size_returns_parsed_value_witness:
  "Atoi ''-5'' = Inr (- 5) \<and> Size [''RQLITE_HISTFILESIZE'' \<mapsto> ''-5''] = - 5
   \<and> Atoi ''0'' = Inr 0 \<and> Size [''RQLITE_HISTFILESIZE'' \<mapsto> ''0''] = 0
   \<and> Atoi ''many'' = Inl ErrSyntax \<and> Size [''RQLITE_HISTFILESIZE'' \<mapsto> ''many''] = 100
   \<and> Size Map.empty = 100"
  using Size_returns_parsed_value [of "[''RQLITE_HISTFILESIZE'' \<mapsto> ''-5'']" "''-5''" "- 5"]
    Size_returns_parsed_value [of "[''RQLITE_HISTFILESIZE'' \<mapsto> ''0'']" "''0''" 0]
    Size_returns_parsed_value [of "[''RQLITE_HISTFILESIZE'' \<mapsto> ''many'']" "''many''" _ ErrSyntax]
    Size_returns_parsed_value [of Map.empty]
  by (simp add: Atoi_eval)

subsection \<open>Write\<close>

text \<open>
  Claim C6 says that for every non-nil writer \<^verbatim>\<open>Write\<close> writes the last
  \<open>min(maxSz, len(k))\<close> entries of \<open>k\<close>. \<^verbatim>\<open>Write\<close> returns at the first write that fails:
  on a device with room for two bytes, \<^verbatim>\<open>Write(["a", "b"], 5, w)\<close> writes \<^verbatim>\<open>"a\n"\<close>, fails to
  write \<^verbatim>\<open>"b"\<close> and returns the error, and the device holds \<^verbatim>\<open>"a\n"\<close>, not \<^verbatim>\<open>"a\nb"\<close>.
\<close>

theorem Write_stops_at_failed_write:
  "Write (Some [''a'', ''b'']) 5 (Some (disk 2 []))
     = Inr (Some ENOSPC, Some (disk 2 [CHR ''a'', CHR 0x0A]))
   \<and> join_lines (last_entries (min 5 (length (Filter_Dedupe [''a'', ''b''])))
        (Filter_Dedupe [''a'', ''b''])) = [CHR ''a'', CHR 0x0A, CHR ''b'']"
proof -
  have k: "Filter_Dedupe [''a'', ''b''] = [''a'', ''b'']"
    by (simp add: Filter_Dedupe_eq Fields_eval)
  have "Write (Some [''a'', ''b'']) 5 (Some (disk 2 []))
     = Inr (Some ENOSPC, Some (disk 2 [CHR ''a'', CHR 0x0A]))"
    by (subst Write_positive) (simp_all add: k pieces_def last_entries_def disk_def w_Write_def)
  then show ?thesis by (simp add: k last_entries_def)
qed

text \<open>
  Claim C6, as amended. For every list \<open>j\<close>, every \<open>maxSz > 0\<close> and every non-nil writer
  \<open>w\<close>, with \<open>k = Filter(Dedupe(j))\<close>: when \<open>k\<close> is empty, \<^verbatim>\<open>Write\<close> writes nothing and returns
  nil; otherwise it hands to \<open>w\<close> the last \<open>min(maxSz, len(k))\<close> entries of \<open>k\<close>, in order,
  each but the last followed by a newline, until a write fails, and returns the error of
  that write, or nil when none fails. So a writer that takes every write, and whose
  content grows by the bytes written, has received exactly these entries, separated by
  newlines, with no trailing newline. When \<open>w\<close> is nil or \<open>j\<close> is empty, \<^verbatim>\<open>Write\<close> writes
  nothing and returns nil. (\<open>maxSz\<close> is a Go \<^verbatim>\<open>int\<close> and \<open>len(j)\<close> fits one.)
\<close>

theorem Write_bounded:
  fixes w :: "('w, 'e) writer" and w0 :: "('w, 'e) writer option"
  assumes "0 < maxSz" "maxSz < 2 ^ 63" "length j < 2 ^ 63"
  shows "Write (Some j) maxSz (Some w) =
           (if Filter_Dedupe j = [] then Inr (None, Some w)
            else Inr (map_prod id Some
                   (send_all (pieces (last_entries (min (nat maxSz) (length (Filter_Dedupe j)))
                                        (Filter_Dedupe j))) w)))
         \<and> ((\<forall>p st. fst (write_method w p st) = None \<and> content (snd (write_method w p st)) = content st @ p)
              \<longrightarrow> (\<exists>w'. Write (Some j) maxSz (Some w) = Inr (None, Some w')
                     \<and> content (state w') = content (state w)
                          @ join_lines (last_entries (min (nat maxSz) (length (Filter_Dedupe j)))
                                          (Filter_Dedupe j))))
         \<and> Write (Some j) maxSz None = Inr (None, None :: ('w, 'e) writer option)
         \<and> (len j0 = 0 \<longrightarrow> Write j0 maxSz w0 = Inr (None, w0))"
proof -
  let ?es = "last_entries (min (nat maxSz) (length (Filter_Dedupe j))) (Filter_Dedupe j)"
  have eq: "Write (Some j) maxSz (Some w) =
           (if Filter_Dedupe j = [] then Inr (None, Some w)
            else Inr (map_prod id Some (send_all (pieces ?es) w)))"
    using assms by (simp add: Write_positive) (simp add: Write_Some)
  have acc: "\<exists>w'. Write (Some j) maxSz (Some w) = Inr (None, Some w')
                \<and> content (state w') = content (state w) @ join_lines ?es"
    if a: "\<forall>p st. fst (write_method w p st) = None \<and> content (snd (write_method w p st)) = content st @ p"
  proof (cases "Filter_Dedupe j = []")
    case True
    then show ?thesis by (simp add: eq last_entries_def)
  next
    case False
    from a have "\<And>p st. fst (write_method w p st) = None \<and> content (snd (write_method w p st)) = content st @ p"
      by blast
    from send_all_accepting [of w content "pieces ?es", OF this]
    obtain w' where "send_all (pieces ?es) w = (None, w')"
      "content (state w') = content (state w) @ concat (pieces ?es)" by blast
    with False show ?thesis by (simp add: eq concat_pieces)
  qed
  show ?thesis
    using eq acc by (simp add: Write_nil_writer Write_empty)
qed

theorem Write_bounded_witness:
  "(0 :: int) < 2 \<and> (2 :: int) < 2 ^ 63 \<and> length [''a'', ''a'', '' '', ''b'', ''c''] < 2 ^ 63
   \<and> (\<forall>p st. fst (write_method (memory []) p st) = None \<and> snd (write_method (memory []) p st) = st @ p)
   \<and> Write (Some [''a'', ''a'', '' '', ''b'', ''c'']) 2 (Some (memory []))
       = Inr (None, Some (memory [CHR ''b'', CHR 0x0A, CHR ''c'']))
   \<and> len (Some ([] :: string list)) = 0
   \<and> Write (Some []) 2 (Some (memory [])) = Inr (None, Some (memory []))"
proof -
  have k: "Filter_Dedupe [''a'', ''a'', '' '', ''b'', ''c''] = [''a'', ''b'', ''c'']"
    by (simp add: Filter_Dedupe_eq Fields_eval)
  have h: "(0 :: int) < 2" "(2 :: int) < 2 ^ 63" "length [''a'', ''a'', '' '', ''b'', ''c''] < 2 ^ 63"
    by simp_all
  from Write_bounded [OF h, where w = "memory []" and content = "\<lambda>st. st"
      and ?j0.0 = "Some []" and ?w0.0 = "Some (memory [])"]
  show ?thesis
    by (simp add: k pieces_def last_entries_def memory_def w_Write_def len_def)
qed

text \<open>
  Claim C10 says that \<^verbatim>\<open>Write\<close> goes out of bounds for every \<open>j\<close> with a non-empty
  \<open>Filter(Dedupe(j))\<close> and every \<open>maxSz \<le> 0\<close>. With the nil writer it does not: the test
  \<^verbatim>\<open>w == nil\<close> returns nil before \<open>k\<close> is computed.
\<close>

theorem Write_nil_writer_never_panics:
  "Filter_Dedupe [''a''] \<noteq> [] \<and> (0 :: int) \<le> 0
   \<and> Write (Some [''a'']) 0 (None :: (string, io_error) writer option) = Inr (None, None)"
  by (simp add: Filter_Dedupe_eq Fields_eval Write_nil_writer)

text \<open>
  Claim C10, as amended: for every \<open>j\<close> with a non-empty \<open>k = Filter(Dedupe(j))\<close> and every
  non-nil writer, \<^verbatim>\<open>Write\<close> panics for every \<open>maxSz \<le> 0\<close> and for no \<open>maxSz > 0\<close>. For
  \<open>maxSz = 0\<close> the slice \<^verbatim>\<open>k[len(k)-maxSz:]\<close> is empty and \<^verbatim>\<open>k[len(k)-1]\<close> is out of range; for
  \<open>maxSz < 0\<close> the lower bound \<^verbatim>\<open>len(k)-maxSz\<close>, computed in 64 bits, is above \<open>len(k)\<close> or
  negative, and the slice expression is out of range. (\<open>maxSz\<close> is a Go \<^verbatim>\<open>int\<close> and
  \<open>len(j)\<close> fits one.)
\<close>

theorem Write_panics_unless_positive:
  fixes w :: "('w, 'e) writer"
  assumes "Filter_Dedupe j \<noteq> []" "length j < 2 ^ 63" "- (2 ^ 63) \<le> maxSz" "maxSz < 2 ^ 63"
  shows "(maxSz = 0 \<longrightarrow> Write (Some j) maxSz (Some w) = Inl IndexOutOfRange)
       \<and> (maxSz < 0 \<longrightarrow>
            (wrap64 (int (length (Filter_Dedupe j)) - maxSz) < 0
               \<or> int (length (Filter_Dedupe j)) < wrap64 (int (length (Filter_Dedupe j)) - maxSz))
            \<and> Write (Some j) maxSz (Some w) = Inl SliceBoundsOutOfRange)
       \<and> (0 < maxSz \<longrightarrow> (\<exists>r. Write (Some j) maxSz (Some w) = Inr r))
       \<and> Write (Some j) maxSz None = Inr (None, None :: ('w, 'e) writer option)"
  using assms
  by (simp add: Write_zero Write_negative Write_positive Write_nil_writer low_out_of_range)

theorem Write_panics_unless_positive_witness:
  "Filter_Dedupe [''a'', ''b''] \<noteq> [] \<and> length [''a'', ''b''] < 2 ^ 63
   \<and> Write (Some [''a'', ''b'']) 0 (Some (disk 9 [])) = Inl IndexOutOfRange
   \<and> Write (Some [''a'', ''b'']) (- 1) (Some (disk 9 [])) = Inl SliceBoundsOutOfRange
   \<and> Write (Some [''a'', ''b'']) (- (2 ^ 63)) (Some (disk 9 [])) = Inl SliceBoundsOutOfRange
   \<and> (\<exists>r. Write (Some [''a'', ''b'']) 1 (Some (disk 9 [])) = Inr r)"
proof -
  have k: "Filter_Dedupe [''a'', ''b''] \<noteq> []"
    by (simp add: Filter_Dedupe_eq Fields_eval)
  have l: "length [''a'', ''b''] < 2 ^ 63" by simp
  show ?thesis
    using Write_panics_unless_positive [OF k l, of 0 "disk 9 []"]
      Write_panics_unless_positive [OF k l, of "- 1" "disk 9 []"]
      Write_panics_unless_positive [OF k l, of "- (2 ^ 63)" "disk 9 []"]
      Write_panics_unless_positive [OF k l, of 1 "disk 9 []"] k
    by simp
qed

section \<open>Properties of the batching queue\<close>

lemmas queue_defs = Queue_Write_def dispatch_def arrive_def seal_def fire_def tick_def due_def
  Close_def Let_def

subsection \<open>Executions\<close>

lemma run_append: "run (es @ es') q = run es' (run es q)"
  by (induction es arbitrary: q) simp_all

lemma accepted_append: "accepted (es @ es') q = accepted es q @ accepted es' (run es q)"
proof (induction es arbitrary: q)
  case Nil
  show ?case by simp
next
  case (Cons e es)
  then show ?case by (cases e) simp_all
qed

lemma items_step:
  "concat (map snd (emitted (step e q))) @ batch (step e q) @ buffer (step e q)
     = concat (map snd (emitted q)) @ batch q @ buffer q @ accepted [e] q"
proof (cases e)
  case (Call_Write item)
  then show ?thesis by (cases item) (simp_all add: queue_defs)
next
  case Dispatch
  then show ?thesis by (cases "buffer q") (simp_all add: queue_defs)
next
  case Tick
  then show ?thesis by (cases "timer q") (simp_all add: queue_defs)
next
  case Call_Close
  then show ?thesis by (simp add: queue_defs)
qed

lemma items_run:
  "concat (map snd (emitted (run es q))) @ batch (run es q) @ buffer (run es q)
     = concat (map snd (emitted q)) @ batch q @ buffer q @ accepted es q"
proof (induction es arbitrary: q)
  case Nil
  show ?case by simp
next
  case (Cons e es)
  have "accepted (e # es) q = accepted [e] q @ accepted es (step e q)"
    using accepted_append [of "[e]" es q] by simp
  with Cons [of "step e q"] items_step [of e q] show ?case by simp
qed

lemma full_step:
  assumes "batchSize q = B" "int (length (batch q)) < B"
    and "\<forall>b \<in> set (emitted q). fst b = SizeTriggered \<and> int (length (snd b)) = B"
    and "\<not> closed q" "e \<noteq> Call_Close" "\<not> (e = Tick \<and> due q \<and> batch q \<noteq> [])"
  shows "batchSize (step e q) = B \<and> int (length (batch (step e q))) < B
       \<and> (\<forall>b \<in> set (emitted (step e q)). fst b = SizeTriggered \<and> int (length (snd b)) = B)
       \<and> \<not> closed (step e q) \<and> numTimeouts (step e q) = numTimeouts q"
proof (cases e)
  case (Call_Write item)
  with assms show ?thesis by (cases item) (simp_all add: queue_defs)
next
  case Dispatch
  with assms show ?thesis by (cases "buffer q") (auto simp add: queue_defs)
next
  case Tick
  with assms show ?thesis by (cases "timer q") (auto simp add: queue_defs)
next
  case Call_Close
  with assms show ?thesis by simp
qed

lemma full_run:
  assumes "batchSize q = B" "int (length (batch q)) < B"
    and "\<forall>b \<in> set (emitted q). fst b = SizeTriggered \<and> int (length (snd b)) = B"
    and "\<not> closed q" "Call_Close \<notin> set es" "no_timeout es q"
  shows "batchSize (run es q) = B \<and> int (length (batch (run es q))) < B
       \<and> (\<forall>b \<in> set (emitted (run es q)). fst b = SizeTriggered \<and> int (length (snd b)) = B)
       \<and> \<not> closed (run es q) \<and> numTimeouts (run es q) = numTimeouts q"
  using assms
proof (induction es arbitrary: q)
  case Nil
  then show ?case by simp
next
  case (Cons e es)
  from Cons.prems have e: "e \<noteq> Call_Close" "\<not> (e = Tick \<and> due q \<and> batch q \<noteq> [])"
    by auto
  note s = full_step [OF Cons.prems(1-4) e]
  from Cons.prems have "Call_Close \<notin> set es" "no_timeout es (step e q)" by auto
  with s Cons.IH [of "step e q"] show ?case by simp
qed

lemma dispatch_buffer:
  "\<not> closed q \<Longrightarrow> buffer (dispatch q) = tl (buffer q) \<and> \<not> closed (dispatch q)"
  by (cases "buffer q") (simp_all add: queue_defs)

lemma drain_buffer: "\<not> closed q \<Longrightarrow> buffer (run (replicate n Dispatch) q) = drop n (buffer q)"
proof (induction n arbitrary: q)
  case 0
  show ?case by simp
next
  case (Suc n)
  from dispatch_buffer [OF Suc.prems] Suc.IH [of "dispatch q"] show ?case
    by (simp add: drop_Suc)
qed

lemma no_timeout_append:
  "no_timeout (es @ es') q \<longleftrightarrow> no_timeout es q \<and> no_timeout es' (run es q)"
  by (induction es arbitrary: q) auto

lemma no_timeout_Dispatch: "no_timeout (replicate n Dispatch) q"
  by (induction n arbitrary: q) simp_all

lemma accepted_Dispatch: "accepted (replicate n Dispatch) q = []"
  by (induction n arbitrary: q) simp_all

lemma length_concat_full:
  "\<forall>b \<in> set bs. int (length (snd b)) = B \<Longrightarrow> length (concat (map snd bs)) = length bs * nat B"
  by (induction bs) auto

lemma New_Inr:
  "New cap B T = Inr q \<Longrightarrow>
     0 < cap \<and> 0 < B \<and> 0 < T \<and>
     q = \<lparr>capacity = cap, batchSize = B, batchTimeout = T, buffer = [], batch = [],
          timer = None, emitted = [], numTimeouts = 0, closed = False\<rparr>"
  by (auto simp: New_def split: if_splits)

subsection \<open>The scenarios of the tests\<close>

text \<open>
  The model does what \<^verbatim>\<open>queue_test.go\<close> expects of the queue. A second stands for one unit
  of time.
\<close>

lemma Test_NewQueueWriteBatchSizeSingle:
  fixes q0 :: "nat queue"
  assumes "New 1024 1 60 = Inr q0"
  shows "emitted (run [Call_Write (Some 1), Dispatch] q0) = [(SizeTriggered, [Some 1])]"
  using New_Inr [OF assms] by (simp add: queue_defs)

lemma Test_NewQueueWriteBatchSizeMulti:
  fixes q0 :: "nat queue"
  assumes "New 1024 5 60 = Inr q0"
  shows "emitted (drain (run [Call_Write (Some 1), Call_Write (Some 2), Call_Write (Some 3),
            Call_Write (Some 4), Call_Write (Some 5)] q0))
           = [(SizeTriggered, [Some 1, Some 2, Some 3, Some 4, Some 5])]"
    and "numTimeouts (drain (run [Call_Write (Some 1), Call_Write (Some 2), Call_Write (Some 3),
            Call_Write (Some 4), Call_Write (Some 5)] q0)) = 0"
    and "emitted (drain (run [Call_Write (Some 6), Call_Write (Some 7), Call_Write (Some 8),
            Call_Write (Some 9), Call_Write (Some 10), Call_Write (Some 11)]
          (drain (run [Call_Write (Some 1), Call_Write (Some 2), Call_Write (Some 3),
            Call_Write (Some 4), Call_Write (Some 5)] q0))))
           = [(SizeTriggered, [Some 1, Some 2, Some 3, Some 4, Some 5]),
              (SizeTriggered, [Some 6, Some 7, Some 8, Some 9, Some 10])]"
    and "numTimeouts (drain (run [Call_Write (Some 6), Call_Write (Some 7), Call_Write (Some 8),
            Call_Write (Some 9), Call_Write (Some 10), Call_Write (Some 11)]
          (drain (run [Call_Write (Some 1), Call_Write (Some 2), Call_Write (Some 3),
            Call_Write (Some 4), Call_Write (Some 5)] q0)))) = 0"
  using New_Inr [OF assms] by (simp_all add: drain_def queue_defs)

lemma Test_NewQueueWriteTimeoutMulti:
  fixes q0 :: "nat queue"
  assumes "New 1024 10 1 = Inr q0"
  shows "emitted (run [Call_Write (Some 1), Dispatch, Tick] q0) = [(TimeoutTriggered, [Some 1])]"
    and "numTimeouts (run [Call_Write (Some 1), Dispatch, Tick] q0) = 1"
    and "emitted (run [Call_Write (Some 1), Dispatch, Tick, Call_Write (Some 2), Dispatch, Tick] q0)
           = [(TimeoutTriggered, [Some 1]), (TimeoutTriggered, [Some 2])]"
    and "numTimeouts
           (run [Call_Write (Some 1), Dispatch, Tick, Call_Write (Some 2), Dispatch, Tick] q0) = 2"
  using New_Inr [OF assms] by (simp_all add: queue_defs)

lemma Test_NewQueueWriteTimeoutBatch:
  fixes q0 :: "nat queue"
  assumes "New 1024 2 1 = Inr q0"
  shows "emitted (run [Call_Write (Some 1), Dispatch, Tick, Call_Write (Some 2),
            Call_Write (Some 3), Dispatch, Dispatch] q0)
           = [(TimeoutTriggered, [Some 1]), (SizeTriggered, [Some 2, Some 3])]"
    and "numTimeouts (run [Call_Write (Some 1), Dispatch, Tick, Call_Write (Some 2),
            Call_Write (Some 3), Dispatch, Dispatch] q0) = 1"
  using New_Inr [OF assms] by (simp_all add: queue_defs)

subsection \<open>Batches by size\<close>

text \<open>
  Claim C1. Take a queue constructed with batch size \<open>B\<close> and an execution of it in which
  \<^verbatim>\<open>Close\<close> is not called and no time-out occurs, and let \<open>N\<close> be the number of its writes,
  with \<open>N mod B = 0\<close>. Once the Dispatcher has taken every item written, the queue has
  emitted exactly \<open>N div B\<close> batches, each of length \<open>B\<close> and size-triggered, which hold the
  items written in their order, and \<open>numTimeouts\<close> is unchanged.
\<close>

theorem size_triggered_batches:
  assumes "New cap B T = Inr q0"
    and "Call_Close \<notin> set es"
    and "no_timeout es q0"
    and "length (accepted es q0) mod nat B = 0"
  shows "length (emitted (drain (run es q0))) = length (accepted es q0) div nat B
       \<and> (\<forall>b \<in> set (emitted (drain (run es q0))).
            fst b = SizeTriggered \<and> int (length (snd b)) = B)
       \<and> concat (map snd (emitted (drain (run es q0)))) = accepted es q0
       \<and> numTimeouts (drain (run es q0)) = numTimeouts q0"
proof -
  let ?n = "length (buffer (run es q0))"
  let ?es = "es @ replicate ?n Dispatch"
  let ?q = "drain (run es q0)"
  from New_Inr [OF assms(1)] have B: "0 < B"
    and q0: "batchSize q0 = B" "batch q0 = []" "emitted q0 = []" "buffer q0 = []" "\<not> closed q0"
    by simp_all
  have q: "?q = run ?es q0" by (simp add: drain_def run_append)
  have closed: "Call_Close \<notin> set ?es" using assms(2) by simp
  have quiet: "no_timeout ?es q0"
    using assms(3) by (simp add: no_timeout_append no_timeout_Dispatch)
  have acc: "accepted ?es q0 = accepted es q0"
    by (simp add: accepted_append accepted_Dispatch)
  have inv: "int (length (batch ?q)) < B"
    "\<forall>b \<in> set (emitted ?q). fst b = SizeTriggered \<and> int (length (snd b)) = B"
    "numTimeouts ?q = numTimeouts q0"
    using full_run [of q0 B ?es, OF q0(1) _ _ q0(5) closed quiet] q0 B
    unfolding q by simp_all
  have "\<not> closed (run es q0)"
    using full_run [of q0 B es, OF q0(1) _ _ q0(5) assms(2,3)] q0 B by simp
  then have empty: "buffer ?q = []"
    by (simp add: drain_def drain_buffer)
  have items: "concat (map snd (emitted ?q)) @ batch ?q = accepted es q0"
    using items_run [of ?es q0] q0 empty acc unfolding q by simp
  from inv(2) have "\<forall>b \<in> set (emitted ?q). int (length (snd b)) = B" by simp
  from length_concat_full [OF this]
  have len: "length (accepted es q0) = length (emitted ?q) * nat B + length (batch ?q)"
    using items by (metis length_append)
  have small: "length (batch ?q) < nat B" using inv(1) B by simp
  from len small have "length (accepted es q0) mod nat B = length (batch ?q)"
    by simp
  with assms(4) have none: "batch ?q = []" by simp
  from len small have count: "length (accepted es q0) div nat B = length (emitted ?q)"
    by simp
  from items none count inv show ?thesis by simp
qed

theorem size_triggered_batches_witness:
  "New 8 2 60 = Inr (\<lparr>capacity = 8, batchSize = 2, batchTimeout = 60, buffer = [], batch = [],
      timer = None, emitted = [], numTimeouts = 0, closed = False\<rparr> :: nat queue)
   \<and> accepted [Call_Write (Some 1), Call_Write (Some 2), Dispatch, Tick, Call_Write (Some 3),
        Call_Write (Some (4 :: nat))] (projr (New 8 2 60)) = [Some 1, Some 2, Some 3, Some 4]
   \<and> emitted (drain (run [Call_Write (Some 1), Call_Write (Some 2), Dispatch, Tick,
        Call_Write (Some 3), Call_Write (Some (4 :: nat))] (projr (New 8 2 60))))
      = [(SizeTriggered, [Some 1, Some 2]), (SizeTriggered, [Some 3, Some 4])]"
proof -
  let ?q0 = "\<lparr>capacity = 8, batchSize = 2, batchTimeout = 60, buffer = [], batch = [],
      timer = None, emitted = [], numTimeouts = 0, closed = False\<rparr> :: nat queue"
  let ?es = "[Call_Write (Some 1), Call_Write (Some 2), Dispatch, Tick, Call_Write (Some 3),
        Call_Write (Some (4 :: nat))]"
  have n: "New 8 2 60 = Inr ?q0" by (simp add: New_def)
  have c: "Call_Close \<notin> set ?es" by simp
  have t: "no_timeout ?es ?q0" by (simp add: queue_defs)
  have a: "accepted ?es ?q0 = [Some 1, Some 2, Some 3, Some 4]" by (simp add: queue_defs)
  then have m: "length (accepted ?es ?q0) mod nat 2 = 0" by simp
  have e: "emitted (drain (run ?es ?q0))
      = [(SizeTriggered, [Some 1, Some 2]), (SizeTriggered, [Some 3, Some 4])]"
    by (simp add: drain_def queue_defs)
  from size_triggered_batches [OF n c t m] n a e show ?thesis by simp
qed

subsection \<open>Batches by time-out\<close>

lemma ticks_disarmed: "timer q = None \<Longrightarrow> run (replicate k Tick) q = q"
  by (induction k) (simp_all add: tick_def)

lemma ticks_countdown:
  "timer q = Some r \<Longrightarrow> int n < r \<Longrightarrow> run (replicate n Tick) q = q\<lparr>timer := Some (r - int n)\<rparr>"
proof (induction n arbitrary: q r)
  case 0
  then show ?case by simp
next
  case (Suc n)
  then have "tick q = q\<lparr>timer := Some (r - 1)\<rparr>" by (simp add: tick_def due_def)
  moreover have "run (replicate n Tick) (q\<lparr>timer := Some (r - 1)\<rparr>)
      = q\<lparr>timer := Some (r - 1)\<rparr>\<lparr>timer := Some (r - 1 - int n)\<rparr>"
    using Suc.prems by (intro Suc.IH) simp_all
  ultimately show ?case by (simp add: algebra_simps)
qed

lemma ticks_idle:
  "batch q = [] \<Longrightarrow>
     emitted (run (replicate m Tick) q) = emitted q
     \<and> numTimeouts (run (replicate m Tick) q) = numTimeouts q
     \<and> batch (run (replicate m Tick) q) = []"
proof (induction m arbitrary: q)
  case 0
  then show ?case by simp
next
  case (Suc m)
  have "batch (tick q) = [] \<and> emitted (tick q) = emitted q \<and> numTimeouts (tick q) = numTimeouts q"
    using Suc.prems by (cases "timer q") (simp_all add: tick_def fire_def)
  with Suc.IH [of "tick q"] show ?case by simp
qed

text \<open>
  Claim C2 says that in every queue a single write followed by silence is emitted by the
  time-out. With \<open>batchSize = 1\<close> the write itself fills the batch: in the queue of
  \<^verbatim>\<open>Test_NewQueueWriteBatchSizeSingle\<close> the batch is size-triggered, and after a silence of
  the whole \<open>batchTimeout\<close> the counter \<open>numTimeouts\<close> is still 0.
\<close>

theorem single_write_emitted_by_size:
  "New 1024 1 60 = Inr (\<lparr>capacity = 1024, batchSize = 1, batchTimeout = 60, buffer = [],
      batch = [], timer = None, emitted = [], numTimeouts = 0, closed = False\<rparr> :: unit queue)
   \<and> emitted (run (Call_Write (Some ()) # Dispatch # replicate 60 Tick) (projr (New 1024 1 60)))
       = [(SizeTriggered, [Some ()])]
   \<and> numTimeouts (run (Call_Write (Some ()) # Dispatch # replicate 60 Tick)
        (projr (New 1024 1 60))) = 0"
proof -
  let ?q0 = "\<lparr>capacity = 1024, batchSize = 1, batchTimeout = 60, buffer = [],
      batch = [], timer = None, emitted = [], numTimeouts = 0, closed = False\<rparr> :: unit queue"
  let ?q1 = "?q0\<lparr>emitted := [(SizeTriggered, [Some ()])]\<rparr>"
  have n: "New 1024 1 60 = Inr ?q0" by (simp add: New_def)
  have s: "run [Call_Write (Some ()), Dispatch] ?q0 = ?q1" by (simp add: queue_defs)
  have "run (replicate 60 Tick) ?q1 = ?q1" by (rule ticks_disarmed) simp
  with s have "run (Call_Write (Some ()) # Dispatch # replicate 60 Tick) ?q0 = ?q1" by simp
  with n show ?thesis by simp
qed

text \<open>
  Claim C2, as amended: for every queue with \<open>batchSize \<ge> 2\<close>, a single non-nil write,
  taken by the Dispatcher and followed by no further write for at least \<open>batchTimeout\<close>,
  yields exactly one emitted batch, of length 1, which is timeout-triggered, and
  \<open>numTimeouts\<close> is incremented by exactly 1.
\<close>

theorem single_write_times_out:
  assumes "New cap B T = Inr q0" and "2 \<le> B" and "T \<le> int d"
  shows "emitted (run (Call_Write (Some x) # replicate k Tick @ Dispatch # replicate d Tick) q0)
           = [(TimeoutTriggered, [Some x])]
       \<and> numTimeouts (run (Call_Write (Some x) # replicate k Tick @ Dispatch # replicate d Tick) q0)
           = numTimeouts q0 + 1
       \<and> numTimeouts q0 = 0"
proof -
  from New_Inr [OF assms(1)] have pos: "0 < cap" "0 < T"
    and q0: "q0 = \<lparr>capacity = cap, batchSize = B, batchTimeout = T, buffer = [], batch = [],
          timer = None, emitted = [], numTimeouts = 0, closed = False\<rparr>"
    by simp_all
  let ?q1 = "q0\<lparr>buffer := [Some x]\<rparr>"
  let ?q2 = "q0\<lparr>batch := [Some x], timer := Some T\<rparr>"
  let ?q3 = "q0\<lparr>emitted := [(TimeoutTriggered, [Some x])], numTimeouts := 1, timer := Some T\<rparr>"
  obtain m where d: "d = (nat T - 1) + Suc m"
    using assms(3) pos(2) by (metis Suc_diff_1 add_Suc_right le_Suc_ex nat_le_iff zero_less_nat_eq add.commute add_Suc)
  have s1: "step (Call_Write (Some x)) q0 = ?q1"
    using pos by (simp add: q0 queue_defs)
  have s2: "run (replicate k Tick) ?q1 = ?q1"
    by (rule ticks_disarmed) (simp add: q0)
  have s3: "step Dispatch ?q1 = ?q2"
    using assms(2) by (simp add: q0 queue_defs)
  have "run (replicate (nat T - 1) Tick) ?q2 = ?q2\<lparr>timer := Some (T - int (nat T - 1))\<rparr>"
    using pos by (intro ticks_countdown) (simp_all add: q0)
  then have s4: "run (replicate (nat T - 1) Tick) ?q2 = ?q2\<lparr>timer := Some 1\<rparr>"
    using pos by (simp add: q0 of_nat_diff)
  have s5: "step Tick (?q2\<lparr>timer := Some 1\<rparr>) = ?q3"
    by (simp add: q0 queue_defs)
  have s6: "emitted (run (replicate m Tick) ?q3) = emitted ?q3
      \<and> numTimeouts (run (replicate m Tick) ?q3) = numTimeouts ?q3"
    using ticks_idle [of ?q3 m] by (simp add: q0)
  have "run (Call_Write (Some x) # replicate k Tick @ Dispatch # replicate d Tick) q0
      = run (replicate m Tick) ?q3"
    unfolding d replicate_add
    using s1 s2 s3 s4 s5 by (simp add: run_append)
  with s6 show ?thesis by (simp add: q0)
qed

theorem single_write_times_out_witness:
  "New 1024 10 3 = Inr (\<lparr>capacity = 1024, batchSize = 10, batchTimeout = 3, buffer = [],
      batch = [], timer = None, emitted = [], numTimeouts = 0, closed = False\<rparr> :: unit queue)
   \<and> (2 :: int) \<le> 10 \<and> (3 :: int) \<le> int 5
   \<and> emitted (run [Call_Write (Some ()), Dispatch, Tick, Tick, Tick, Tick, Tick]
        (projr (New 1024 10 3))) = [(TimeoutTriggered, [Some ()])]
   \<and> numTimeouts (run [Call_Write (Some ()), Dispatch, Tick, Tick, Tick, Tick, Tick]
        (projr (New 1024 10 3))) = 1"
proof -
  let ?q0 = "\<lparr>capacity = 1024, batchSize = 10, batchTimeout = 3, buffer = [],
      batch = [], timer = None, emitted = [], numTimeouts = 0, closed = False\<rparr> :: unit queue"
  have n: "New 1024 10 3 = Inr ?q0" by (simp add: New_def)
  have b: "(2 :: int) \<le> 10" and t: "(3 :: int) \<le> int 5" by simp_all
  from single_write_times_out [OF n b t, of "()" 0] n show ?thesis
    by (simp add: numeral_eq_Suc)
qed

subsection \<open>The counter of time-outs\<close>

lemma timeouts_step:
  "\<exists>bs. emitted (step e q) = emitted q @ bs
        \<and> numTimeouts (step e q)
            = numTimeouts q + length (filter (\<lambda>b. fst b = TimeoutTriggered) bs)"
proof (cases e)
  case (Call_Write item)
  then show ?thesis by (cases item) (simp_all add: queue_defs)
next
  case Dispatch
  then show ?thesis by (cases "buffer q") (simp_all add: queue_defs)
next
  case Tick
  then show ?thesis by (cases "timer q") (simp_all add: queue_defs)
next
  case Call_Close
  then show ?thesis by (simp add: queue_defs)
qed

lemma timeouts_run:
  "\<exists>bs. emitted (run es q) = emitted q @ bs
        \<and> numTimeouts (run es q)
            = numTimeouts q + length (filter (\<lambda>b. fst b = TimeoutTriggered) bs)"
proof (induction es arbitrary: q)
  case Nil
  show ?case by simp
next
  case (Cons e es)
  from timeouts_step [of e q] obtain bs where 1: "emitted (step e q) = emitted q @ bs"
    "numTimeouts (step e q) = numTimeouts q + length (filter (\<lambda>b. fst b = TimeoutTriggered) bs)"
    by blast
  from Cons [of "step e q"] obtain cs where 2: "emitted (run es (step e q)) = emitted (step e q) @ cs"
    "numTimeouts (run es (step e q))
       = numTimeouts (step e q) + length (filter (\<lambda>b. fst b = TimeoutTriggered) cs)"
    by blast
  from 1 2 show ?case by simp
qed

text \<open>
  Claim C3: \<open>numTimeouts\<close> starts at 0 and never decreases in an execution; every event
  increments it by the number of timeout-triggered batches the event emits, which is at
  most one, and so not for a size-triggered batch; at every moment it is the number of
  timeout-triggered batches emitted so far.
\<close>

theorem numTimeouts_counts_timeouts:
  "(New cap B T = Inr q0 \<longrightarrow>
      numTimeouts q0 = 0
      \<and> numTimeouts (run es q0)
          = length (filter (\<lambda>b. fst b = TimeoutTriggered) (emitted (run es q0))))
   \<and> numTimeouts (run es q) \<le> numTimeouts (run (es @ es') q)
   \<and> (\<exists>bs. emitted (step e q) = emitted q @ bs
         \<and> numTimeouts (step e q)
             = numTimeouts q + length (filter (\<lambda>b. fst b = TimeoutTriggered) bs))"
proof -
  have "numTimeouts (run es q0)
          = length (filter (\<lambda>b. fst b = TimeoutTriggered) (emitted (run es q0)))"
    and "numTimeouts q0 = 0"
    if "New cap B T = Inr q0"
    using timeouts_run [of es q0] New_Inr [OF that] by auto
  moreover have "numTimeouts (run es q) \<le> numTimeouts (run (es @ es') q)"
    using timeouts_run [of es' "run es q"] by (auto simp: run_append)
  ultimately show ?thesis using timeouts_step [of e q] by blast
qed

theorem numTimeouts_counts_timeouts_witness:
  "New 1024 2 1 = Inr (projr (New 1024 2 1) :: unit queue)
   \<and> emitted (run [Call_Write (Some ()), Dispatch, Tick, Call_Write (Some ()),
        Call_Write (Some ()), Dispatch, Dispatch] (projr (New 1024 2 1)))
       = [(TimeoutTriggered, [Some ()]), (SizeTriggered, [Some (), Some ()])]
   \<and> numTimeouts (run [Call_Write (Some ()), Dispatch, Tick, Call_Write (Some ()),
        Call_Write (Some ()), Dispatch, Dispatch] (projr (New 1024 2 1))) = 1"
proof -
  let ?q0 = "projr (New 1024 2 1) :: unit queue"
  let ?es = "[Call_Write (Some ()), Dispatch, Tick, Call_Write (Some ()),
        Call_Write (Some ()), Dispatch, Dispatch]"
  have n: "New 1024 2 1 = Inr ?q0" by (simp add: New_def)
  have e: "emitted (run ?es ?q0)
       = [(TimeoutTriggered, [Some ()]), (SizeTriggered, [Some (), Some ()])]"
    by (simp add: New_def queue_defs)
  from numTimeouts_counts_timeouts [of 1024 2 1 ?q0 ?es] n e show ?thesis by simp
qed

subsection \<open>Construction\<close>

text \<open>
  Claim C4: construction with a non-positive capacity, batch size or time-out fails with
  \<open>InvalidConfig\<close> and returns no queue; with three positive parameters it returns a queue
  that is not closed, has these parameters, holds nothing, and accepts a write.
\<close>

theorem New_checks_configuration:
  "(cap \<le> 0 \<or> B \<le> 0 \<or> T \<le> 0 \<longrightarrow> New cap B T = (Inl InvalidConfig :: queue_error + 'a queue))
   \<and> (0 < cap \<and> 0 < B \<and> 0 < T \<longrightarrow>
        (\<exists>q :: 'a queue. New cap B T = Inr q \<and> \<not> closed q
            \<and> capacity q = cap \<and> batchSize q = B \<and> batchTimeout q = T
            \<and> buffer q = [] \<and> batch q = [] \<and> emitted q = [] \<and> numTimeouts q = 0
            \<and> fst (Queue_Write (Some x) q) = Ok))"
  by (auto simp: New_def Queue_Write_def)

theorem New_checks_configuration_witness:
  "(New 0 1 1 :: queue_error + unit queue) = Inl InvalidConfig
   \<and> (New 1 (- 1) 1 :: queue_error + unit queue) = Inl InvalidConfig
   \<and> (New 1 1 0 :: queue_error + unit queue) = Inl InvalidConfig
   \<and> (\<exists>q :: unit queue. New 1 1 100 = Inr q \<and> \<not> closed q)"
  using New_checks_configuration [of 0 1 1, where 'a = unit]
    New_checks_configuration [of 1 "- 1" 1, where 'a = unit]
    New_checks_configuration [of 1 1 0, where 'a = unit]
    New_checks_configuration [of 1 1 100 "()"]
  by auto

subsection \<open>The nil item\<close>

lemma no_nil_step:
  assumes "None \<notin> set (buffer q)" "None \<notin> set (batch q)" "\<forall>b \<in> set (emitted q). None \<notin> set (snd b)"
  shows "None \<notin> set (buffer (step e q)) \<and> None \<notin> set (batch (step e q))
       \<and> (\<forall>b \<in> set (emitted (step e q)). None \<notin> set (snd b))"
proof (cases e)
  case (Call_Write item)
  with assms show ?thesis by (cases item) (simp_all add: queue_defs)
next
  case Dispatch
  with assms show ?thesis by (cases "buffer q") (auto simp add: queue_defs)
next
  case Tick
  with assms show ?thesis by (cases "timer q") (auto simp add: queue_defs)
next
  case Call_Close
  with assms show ?thesis by (auto simp add: queue_defs)
qed

lemma no_nil_run:
  assumes "None \<notin> set (buffer q)" "None \<notin> set (batch q)" "\<forall>b \<in> set (emitted q). None \<notin> set (snd b)"
  shows "None \<notin> set (buffer (run es q)) \<and> None \<notin> set (batch (run es q))
       \<and> (\<forall>b \<in> set (emitted (run es q)). None \<notin> set (snd b))"
  using assms
proof (induction es arbitrary: q)
  case Nil
  then show ?case by simp
next
  case (Cons e es)
  from no_nil_step [OF Cons.prems, of e] Cons.IH [of "step e q"] show ?case by simp
qed

text \<open>
  Claim C5: on a queue that is not closed, \<^verbatim>\<open>Write(nil)\<close> returns success and leaves the
  queue, and so the Input Buffer, as it was; and in no execution of a constructed queue
  does a nil item enter the Input Buffer or appear in an emitted batch.
\<close>

theorem Write_nil_is_ignored:
  "(\<not> closed q \<longrightarrow> Queue_Write None q = (Ok, q))
   \<and> (New cap B T = Inr q0 \<longrightarrow>
        None \<notin> set (buffer (run es q0))
        \<and> (\<forall>b \<in> set (emitted (run es q0)). None \<notin> set (snd b)))"
proof -
  have "None \<notin> set (buffer (run es q0)) \<and> (\<forall>b \<in> set (emitted (run es q0)). None \<notin> set (snd b))"
    if "New cap B T = Inr q0"
    using no_nil_run [of q0 es] New_Inr [OF that] by simp
  then show ?thesis by (simp add: Queue_Write_def)
qed

theorem Write_nil_is_ignored_witness:
  "\<not> closed (projr (New 1 1 60) :: unit queue)
   \<and> Queue_Write None (projr (New 1 1 60) :: unit queue) = (Ok, projr (New 1 1 60))
   \<and> New 1 1 60 = Inr (projr (New 1 1 60) :: unit queue)
   \<and> emitted (run [Call_Write None, Call_Write (Some ()), Call_Write None, Dispatch, Dispatch]
        (projr (New 1 1 60))) = [(SizeTriggered, [Some ()])]"
proof -
  let ?q0 = "projr (New 1 1 60) :: unit queue"
  have n: "New 1 1 60 = Inr ?q0" and c: "\<not> closed ?q0" by (simp_all add: New_def)
  have e: "emitted (run [Call_Write None, Call_Write (Some ()), Call_Write None, Dispatch, Dispatch] ?q0)
      = [(SizeTriggered, [Some ()])]"
    by (simp add: New_def queue_defs)
  from Write_nil_is_ignored [of ?q0 1 1 60 ?q0] n c e show ?thesis by simp
qed

end
